theory Spec2Isabelle
  imports Main "HOL-Library.Word"
begin

section \<open>Strings and numbers of the source language\<close>

text \<open>
  An ECMAScript string is a finite sequence of 16-bit code units. String literals of the
  source are written \<open>lit ''...''\<close>. The numbers of the program (counters, slider values,
  string lengths) are integers far below \<open>2 ^ 53\<close>, where the arithmetic of doubles is
  exact; they are modelled as \<open>int\<close>.
\<close>

type_synonym jsstring = "16 word list"

definition lit :: "string \<Rightarrow> jsstring" where
  "lit s = map of_char s"

definition isHighSurrogate :: "16 word \<Rightarrow> bool" where
  "isHighSurrogate c \<longleftrightarrow> 0xD800 \<le> c \<and> c \<le> 0xDBFF"

definition isLowSurrogate :: "16 word \<Rightarrow> bool" where
  "isLowSurrogate c \<longleftrightarrow> 0xDC00 \<le> c \<and> c \<le> 0xDFFF"

text \<open>
  \<open>for (const char of str)\<close> walks the string by code points: a high surrogate followed
  by a low surrogate is one element of two code units, every other code unit is an
  element of its own.
\<close>

fun stringIterator :: "jsstring \<Rightarrow> jsstring list" where
  "stringIterator [] = []"
| "stringIterator [c] = [[c]]"
| "stringIterator (c # d # cs) =
     (if isHighSurrogate c \<and> isLowSurrogate d then [c, d] # stringIterator cs
      else [c] # stringIterator (d # cs))"

text \<open>\<open>Number.prototype.toString\<close> on an integer: decimal digits, a minus sign if negative.\<close>

function natToString :: "nat \<Rightarrow> jsstring" where
  "natToString n =
     (if n < 10 then [lit ''0123456789'' ! n]
      else natToString (n div 10) @ [lit ''0123456789'' ! (n mod 10)])"
  by pat_completeness auto
termination
  by (relation "measure id") auto

definition toString :: "int \<Rightarrow> jsstring" where
  "toString x = (if x < 0 then lit ''-'' @ natToString (nat (- x)) else natToString (nat x))"

text \<open>
  \<open>String.prototype.split\<close> with a one-unit separator: the segments between the
  separators, empty segments included.
\<close>

fun split_from :: "16 word \<Rightarrow> jsstring \<Rightarrow> jsstring \<Rightarrow> jsstring list" where
  "split_from sep cur [] = [cur]"
| "split_from sep cur (c # cs) =
     (if c = sep then cur # split_from sep [] cs else split_from sep (cur @ [c]) cs)"

definition split :: "jsstring \<Rightarrow> 16 word \<Rightarrow> jsstring list" where
  "split s sep = split_from sep [] s"

text \<open>
  \<open>String.prototype.replace\<close> with a string pattern replaces the first occurrence only.
  The replacement is inserted as it is: the replacements of this program are decimal
  numerals, which hold no \<open>$\<close>.
\<close>

fun replaceFirst :: "jsstring \<Rightarrow> jsstring \<Rightarrow> jsstring \<Rightarrow> jsstring" where
  "replaceFirst [] pat rep = (if pat = [] then rep else [])"
| "replaceFirst (c # cs) pat rep =
     (if take (length pat) (c # cs) = pat then rep @ drop (length pat) (c # cs)
      else c # replaceFirst cs pat rep)"

text \<open>\<open>String.prototype.slice(start, end)\<close>: negative positions count from the end, and
  both are clamped into the string, so the call never fails.\<close>

definition slice_str :: "jsstring \<Rightarrow> int \<Rightarrow> int \<Rightarrow> jsstring" where
  "slice_str s start end =
     (let len = int (length s);
          from = (if start < 0 then max (len + start) 0 else min start len);
          to = (if end < 0 then max (len + end) 0 else min end len)
      in take (nat (max (to - from) 0)) (drop (nat from) s))"

section \<open>encodeURIComponent\<close>

datatype error = URIError

definition isUnescaped :: "16 word \<Rightarrow> bool" where
  "isUnescaped c \<longleftrightarrow>
     (0x41 \<le> c \<and> c \<le> 0x5A) \<or> (0x61 \<le> c \<and> c \<le> 0x7A) \<or> (0x30 \<le> c \<and> c \<le> 0x39)
     \<or> c \<in> set (lit ''-_.!~*()'') \<or> c = 0x27"

definition utf8 :: "nat \<Rightarrow> nat list" where
  "utf8 cp =
     (if cp < 0x80 then [cp]
      else if cp < 0x800 then [0xC0 + cp div 64, 0x80 + cp mod 64]
      else if cp < 0x10000 then
        [0xE0 + cp div 4096, 0x80 + (cp div 64) mod 64, 0x80 + cp mod 64]
      else [0xF0 + cp div 262144, 0x80 + (cp div 4096) mod 64,
            0x80 + (cp div 64) mod 64, 0x80 + cp mod 64])"

definition percent :: "nat \<Rightarrow> jsstring" where
  "percent b =
     lit ''%'' @ [lit ''0123456789ABCDEF'' ! (b div 16), lit ''0123456789ABCDEF'' ! (b mod 16)]"

definition escapeCodePoint :: "nat \<Rightarrow> jsstring" where
  "escapeCodePoint cp = concat (map percent (utf8 cp))"

definition pairCodePoint :: "16 word \<Rightarrow> 16 word \<Rightarrow> nat" where
  "pairCodePoint c d = 0x10000 + (unat c - 0xD800) * 0x400 + (unat d - 0xDC00)"

text \<open>
  The unreserved code units are copied; every other code point is written as the
  percent-escaped octets of its UTF-8 form. A surrogate that is not part of a pair
  makes the call throw \<open>URIError\<close>.
\<close>

fun encodeURIComponent :: "jsstring \<Rightarrow> error + jsstring" where
  "encodeURIComponent [] = Inr []"
| "encodeURIComponent [c] =
     (if isUnescaped c then Inr [c]
      else if isHighSurrogate c \<or> isLowSurrogate c then Inl URIError
      else Inr (escapeCodePoint (unat c)))"
| "encodeURIComponent (c # d # cs) =
     (if isUnescaped c then
        (case encodeURIComponent (d # cs) of Inl e \<Rightarrow> Inl e | Inr r \<Rightarrow> Inr (c # r))
      else if isHighSurrogate c \<and> isLowSurrogate d then
        (case encodeURIComponent cs of Inl e \<Rightarrow> Inl e
         | Inr r \<Rightarrow> Inr (escapeCodePoint (pairCodePoint c d) @ r))
      else if isHighSurrogate c \<or> isLowSurrogate c then Inl URIError
      else
        (case encodeURIComponent (d # cs) of Inl e \<Rightarrow> Inl e
         | Inr r \<Rightarrow> Inr (escapeCodePoint (unat c) @ r)))"

section \<open>SearchEngineCore\<close>

text \<open>
  The three functions of the object \<open>SearchEngineCore\<close> (lines 10 to 31 of
  \<open>src/unnamed/part_000\<close>, and the same text in \<open>src/App.tsx\<close>).

  \<open>sanitizeInput\<close>: three global replacements by character class, then \<open>trim\<close>.
\<close>

definition isControl :: "16 word \<Rightarrow> bool" where
  "isControl c \<longleftrightarrow> c \<le> 0x1F \<or> c = 0x7F"

definition straightenSingle :: "16 word \<Rightarrow> 16 word" where
  "straightenSingle c = (if c = 0x2018 \<or> c = 0x2019 then 0x27 else c)"

definition straightenDouble :: "16 word \<Rightarrow> 16 word" where
  "straightenDouble c = (if c = 0x201C \<or> c = 0x201D then 0x22 else c)"

text \<open>The white space and line terminators that \<open>String.prototype.trim\<close> strips.\<close>

definition isWhiteSpace :: "16 word \<Rightarrow> bool" where
  "isWhiteSpace c \<longleftrightarrow>
     c \<in> {0x09, 0x0A, 0x0B, 0x0C, 0x0D, 0x20, 0xA0, 0x1680, 0x2028, 0x2029, 0x202F,
          0x205F, 0x3000, 0xFEFF}
     \<or> (0x2000 \<le> c \<and> c \<le> 0x200A)"

definition trim :: "jsstring \<Rightarrow> jsstring" where
  "trim s = rev (dropWhile isWhiteSpace (rev (dropWhile isWhiteSpace s)))"

definition sanitizeInput :: "jsstring \<Rightarrow> jsstring" where
  "sanitizeInput raw =
     trim (map straightenDouble (map straightenSingle (filter (\<lambda>c. \<not> isControl c) raw)))"

text \<open>\<open>isSyntaxSafe\<close>: the loop over the characters with its early return.\<close>

fun isSyntaxSafe_loop :: "jsstring list \<Rightarrow> int \<Rightarrow> bool" where
  "isSyntaxSafe_loop [] stack = (stack = 0)"
| "isSyntaxSafe_loop (ch # rest) stack =
     (let stack1 = (if ch = lit ''('' then stack + 1 else stack);
          stack2 = (if ch = lit '')'' then stack1 - 1 else stack1)
      in if stack2 < 0 then False else isSyntaxSafe_loop rest stack2)"

definition isSyntaxSafe :: "jsstring \<Rightarrow> bool" where
  "isSyntaxSafe str = isSyntaxSafe_loop (stringIterator str) 0"

text \<open>\<open>processTerm\<close>: the global replacement of \<open>/([()])/\<close> by a backslash and the match.\<close>

definition escapeParen :: "16 word \<Rightarrow> jsstring" where
  "escapeParen c = (if c = 0x28 \<or> c = 0x29 then lit [CHR 0x5C] @ [c] else [c])"

definition processTerm :: "jsstring \<Rightarrow> jsstring" where
  "processTerm t = (if isSyntaxSafe t then t else concat (map escapeParen t))"

section \<open>The generation algorithm of executeSearch (v2.5.0)\<close>

text \<open>
  Lines 99 to 116 of \<open>src/unnamed/part_000\<close>: the block between the marks
  \<open>ALGORITHM v2.5.0\<close>, which the specification calls \<open>buildVectors\<close>. The three slider
  values are the fields of \<open>GenerationParams\<close>.
\<close>

record GenerationParams =
  vectorCount :: int
  density :: int
  pageOffset :: int

definition template :: jsstring where
  "template = lit ''site:*.*.%NUM%.* |''"

definition wordCount :: "jsstring \<Rightarrow> int" where
  "wordCount processedTerm = int (length (split processedTerm 0x20))"

definition decayFactor :: "jsstring \<Rightarrow> int" where
  "decayFactor processedTerm = max (32 - wordCount processedTerm) 1"

text \<open>The inner loop: \<open>for (let ii = 0; ii < iterations; ii++) queryPart += ...\<close>.\<close>

function queryPart_loop :: "int \<Rightarrow> int \<Rightarrow> jsstring \<Rightarrow> jsstring" where
  "queryPart_loop ii iterations queryPart =
     (if ii < iterations then
        queryPart_loop (ii + 1) iterations
          (queryPart @ replaceFirst template (lit ''%NUM%'') (toString ii))
      else queryPart)"
  by pat_completeness auto
termination
  by (relation "measure (\<lambda>(ii, iterations, queryPart). nat (iterations - ii))") auto

definition iterations :: "jsstring \<Rightarrow> GenerationParams \<Rightarrow> int \<Rightarrow> int" where
  "iterations processedTerm p i = max (density p - i * decayFactor processedTerm) 1"

definition finalQuery :: "jsstring \<Rightarrow> jsstring \<Rightarrow> jsstring" where
  "finalQuery processedTerm queryPart =
     lit ''('' @ processedTerm @ lit '') ('' @ queryPart @ lit '')''"

text \<open>
  The body of the outer loop for vector \<open>i\<close>: the clause string \<open>queryPart\<close> after its
  truncation, and the URL that is pushed, or the exception of \<open>encodeURIComponent\<close>.
\<close>

definition queryPart :: "jsstring \<Rightarrow> GenerationParams \<Rightarrow> int \<Rightarrow> jsstring" where
  "queryPart processedTerm p i =
     slice_str (queryPart_loop 0 (iterations processedTerm p i) []) 0 (- 1)"

definition searchUrl :: "jsstring \<Rightarrow> GenerationParams \<Rightarrow> int \<Rightarrow> error + jsstring" where
  "searchUrl processedTerm p i =
     (case encodeURIComponent (finalQuery processedTerm (queryPart processedTerm p i)) of
        Inl e \<Rightarrow> Inl e
      | Inr q \<Rightarrow>
          Inr (lit ''https://www.google.com/search?q='' @ q @ lit ''&start=''
               @ toString (pageOffset p * 10)))"

function generatedUrls_loop ::
  "jsstring \<Rightarrow> GenerationParams \<Rightarrow> int \<Rightarrow> jsstring list \<Rightarrow> error + jsstring list" where
  "generatedUrls_loop processedTerm p i generatedUrls =
     (if i < vectorCount p then
        (case searchUrl processedTerm p i of
           Inl e \<Rightarrow> Inl e
         | Inr u \<Rightarrow> generatedUrls_loop processedTerm p (i + 1) (generatedUrls @ [u]))
      else Inr generatedUrls)"
  by pat_completeness auto
termination
  by (relation "measure (\<lambda>(processedTerm, p, i, generatedUrls). nat (vectorCount p - i))") auto

definition buildVectors :: "jsstring \<Rightarrow> GenerationParams \<Rightarrow> error + jsstring list" where
  "buildVectors processedTerm p = generatedUrls_loop processedTerm p 0 []"

declare natToString.simps [simp del]
declare queryPart_loop.simps [simp del]
declare generatedUrls_loop.simps [simp del]

section \<open>executeSearch (v2.5.0)\<close>

text \<open>
  Lines 81 to 126 of \<open>src/unnamed/part_000\<close>.
  The component's state variables that the callback reads or sets. A log entry is its
  message and type; its id and timestamp come from the clock and the random generator
  and are left out, as is the \<open>isExecuting\<close> flag, which only drives an animation timer.
\<close>

datatype logType = System | User | Info | Warning | Success





section \<open>The preserved logic core of v2.3.0\<close>

text \<open>
  Lines 95 to 103 of \<open>src/App.tsx\<close>, the body of the outer loop of the older variant:
  density 257 and 10 vectors are fixed, the loop bound \<open>257 - i * o\<close> has no floor, and
  the URL has no \<open>start\<close> parameter.
\<close>

definition queryPart_v23 :: "jsstring \<Rightarrow> int \<Rightarrow> jsstring" where
  "queryPart_v23 processedTerm i =
     slice_str (queryPart_loop 0 (257 - i * max (32 - wordCount processedTerm) 1) []) 0 (- 1)"

definition searchUrl_v23 :: "jsstring \<Rightarrow> int \<Rightarrow> error + jsstring" where
  "searchUrl_v23 processedTerm i =
     (case encodeURIComponent (finalQuery processedTerm (queryPart_v23 processedTerm i)) of
        Inl e \<Rightarrow> Inl e
      | Inr q \<Rightarrow> Inr (lit ''https://www.google.com/search?q='' @ q))"

section \<open>Notions of the specification\<close>

text \<open>The documented ranges of the three parameters.\<close>

definition inBounds :: "GenerationParams \<Rightarrow> bool" where
  "inBounds p \<longleftrightarrow>
     1 \<le> vectorCount p \<and> vectorCount p \<le> 20 \<and> 128 \<le> density p \<and> density p \<le> 1024
     \<and> 0 \<le> pageOffset p \<and> pageOffset p \<le> 9"

text \<open>
  The depth counter of the specification: it starts at 0, goes up at each opening and
  down at each closing parenthesis and ignores every other code unit.
\<close>

definition spec_depth :: "jsstring \<Rightarrow> int" where
  "spec_depth s =
     foldl (\<lambda>d c. if c = 0x28 then d + 1 else if c = 0x29 then d - 1 else d) 0 s"

definition spec_isBalanced :: "jsstring \<Rightarrow> bool" where
  "spec_isBalanced s \<longleftrightarrow>
     list_all (\<lambda>n. 0 \<le> spec_depth (take n s)) [0..<Suc (length s)] \<and> spec_depth s = 0"

text \<open>The scan of \<open>isSyntaxSafe\<close> over code units instead of code points.\<close>

fun scan :: "jsstring \<Rightarrow> int \<Rightarrow> bool" where
  "scan [] k = (k = 0)"
| "scan (c # cs) k =
     (let k' = (if c = 0x28 then k + 1 else if c = 0x29 then k - 1 else k)
      in if k' < 0 then False else scan cs k')"

definition isParen :: "16 word \<Rightarrow> bool" where
  "isParen c \<longleftrightarrow> c = 0x28 \<or> c = 0x29"

text \<open>Removes each backslash that stands immediately before a parenthesis.\<close>

fun unescapeParens :: "jsstring \<Rightarrow> jsstring" where
  "unescapeParens (b # c # cs) =
     (if b = 0x5C \<and> isParen c then c # unescapeParens cs else b # unescapeParens (c # cs))"
| "unescapeParens cs = cs"

text \<open>A string is well formed when each of its surrogates is part of a pair.\<close>

fun wellFormed :: "jsstring \<Rightarrow> bool" where
  "wellFormed [] = True"
| "wellFormed [c] = (\<not> isHighSurrogate c \<and> \<not> isLowSurrogate c)"
| "wellFormed (c # d # cs) =
     (if isHighSurrogate c \<and> isLowSurrogate d then wellFormed cs
      else \<not> isHighSurrogate c \<and> \<not> isLowSurrogate c \<and> wellFormed (d # cs))"

text \<open>The clause that the inner loop appends for index \<open>ii\<close>.\<close>

definition fragment :: "nat \<Rightarrow> jsstring" where
  "fragment ii = lit ''site:*.*.'' @ toString (int ii) @ lit ''.* |''"

section \<open>The syntax check\<close>

text \<open>
  No parenthesis is a surrogate, so walking the string by code points and walking it by
  code units count the same parentheses.
\<close>

lemma isSyntaxSafe_loop_scan: "isSyntaxSafe_loop (stringIterator s) k = scan s k"
proof (induction s arbitrary: k rule: stringIterator.induct)
  case 1
  show ?case by simp
next
  case (2 c)
  show ?case by (simp add: lit_def Let_def)
next
  case (3 c d cs)
  show ?case
  proof (cases "isHighSurrogate c \<and> isLowSurrogate d")
    case True
    then have "c \<noteq> 0x28" "c \<noteq> 0x29" "d \<noteq> 0x28" "d \<noteq> 0x29"
      by (auto simp: isHighSurrogate_def isLowSurrogate_def)
    with True 3 show ?thesis by (simp add: lit_def Let_def)
  next
    case False
    have it: "stringIterator (c # d # cs) = [c] # stringIterator (d # cs)"
      using False by simp
    have ih: "\<And>k. isSyntaxSafe_loop (stringIterator (d # cs)) k = scan (d # cs) k"
      using 3(2) False by blast
    show ?thesis
      unfolding it by (simp add: ih lit_def Let_def del: stringIterator.simps)
  qed
qed

lemma isSyntaxSafe_scan: "isSyntaxSafe s = scan s 0"
  by (simp add: isSyntaxSafe_def isSyntaxSafe_loop_scan)

lemma spec_depth_Cons:
  "spec_depth (c # cs) = (if c = 0x28 then 1 else if c = 0x29 then - 1 else 0) + spec_depth cs"
proof -
  have "foldl (\<lambda>d c. if c = 0x28 then d + 1 else if c = 0x29 then d - 1 else d) a cs
      = a + foldl (\<lambda>d c. if c = 0x28 then d + 1 else if c = 0x29 then d - 1 else d) 0 cs"
    for a :: int and cs :: jsstring
  proof (induction cs arbitrary: a)
    case Nil
    show ?case by simp
  next
    case (Cons x xs)
    show ?case
      by (simp only: foldl_Cons Cons.IH [of "if x = 0x28 then a + 1 else if x = 0x29 then a - 1 else a"]
            Cons.IH [of "if x = 0x28 then 0 + 1 else if x = 0x29 then 0 - 1 else 0"])
         auto
  qed
  from this [of "if c = 0x28 then 0 + 1 else if c = 0x29 then 0 - 1 else 0" cs]
  show ?thesis by (simp add: spec_depth_def)
qed

lemma spec_depth_Nil: "spec_depth [] = 0"
  by (simp add: spec_depth_def)

lemma scan_depth:
  "0 \<le> k \<Longrightarrow> scan s k \<longleftrightarrow> (\<forall>n\<le>length s. 0 \<le> k + spec_depth (take n s)) \<and> k + spec_depth s = 0"
proof (induction s arbitrary: k)
  case Nil
  then show ?case by (simp add: spec_depth_Nil)
next
  case (Cons c cs)
  define k' where "k' = k + (if c = 0x28 then 1 else if c = 0x29 then - 1 else 0)"
  have sc: "scan (c # cs) k = (if k' < 0 then False else scan cs k')"
    by (auto simp: k'_def Let_def)
  have all: "(\<forall>n\<le>length (c # cs). 0 \<le> k + spec_depth (take n (c # cs)))
      \<longleftrightarrow> (\<forall>n\<le>length cs. 0 \<le> k' + spec_depth (take n cs))"
  proof
    assume a: "\<forall>n\<le>length (c # cs). 0 \<le> k + spec_depth (take n (c # cs))"
    show "\<forall>n\<le>length cs. 0 \<le> k' + spec_depth (take n cs)"
    proof (intro allI impI)
      fix n assume "n \<le> length cs"
      then have "Suc n \<le> length (c # cs)" by simp
      with a have "0 \<le> k + spec_depth (take (Suc n) (c # cs))" by blast
      then show "0 \<le> k' + spec_depth (take n cs)"
        by (simp add: spec_depth_Cons k'_def split: if_splits)
    qed
  next
    assume a: "\<forall>n\<le>length cs. 0 \<le> k' + spec_depth (take n cs)"
    show "\<forall>n\<le>length (c # cs). 0 \<le> k + spec_depth (take n (c # cs))"
    proof (intro allI impI)
      fix n assume n: "n \<le> length (c # cs)"
      show "0 \<le> k + spec_depth (take n (c # cs))"
      proof (cases n)
        case 0
        then show ?thesis using Cons.prems by (simp add: spec_depth_Nil)
      next
        case (Suc m)
        then have "0 \<le> k' + spec_depth (take m cs)" using a n by simp
        then show ?thesis using Suc
          by (simp add: spec_depth_Cons k'_def split: if_splits)
      qed
    qed
  qed
  have fin: "k + spec_depth (c # cs) = k' + spec_depth cs"
    by (simp add: spec_depth_Cons k'_def)
  show ?case
  proof (cases "k' < 0")
    case True
    have "\<not> (\<forall>n\<le>length cs. 0 \<le> k' + spec_depth (take n cs))"
    proof
      assume "\<forall>n\<le>length cs. 0 \<le> k' + spec_depth (take n cs)"
      then have "0 \<le> k' + spec_depth (take 0 cs)" by blast
      then show False using True by (simp add: spec_depth_Nil)
    qed
    then show ?thesis using True sc all by simp
  next
    case False
    then have "0 \<le> k'" by simp
    from Cons.IH [OF this] show ?thesis using False sc all fin by simp
  qed
qed

lemma spec_isBalanced_iff:
  "spec_isBalanced s \<longleftrightarrow> (\<forall>n\<le>length s. 0 \<le> spec_depth (take n s)) \<and> spec_depth s = 0"
  by (auto simp: spec_isBalanced_def list_all_iff less_Suc_eq_le)

lemma isSyntaxSafe_spec: "isSyntaxSafe s = spec_isBalanced s"
  using scan_depth [of 0 s] by (simp add: isSyntaxSafe_scan spec_isBalanced_iff)

text \<open>
  C6. \<open>isSyntaxSafe\<close> (the specification's \<open>isBalanced\<close>) returns true exactly when the
  depth counter, read from left to right, is never negative after any prefix and is 0 at
  the end. It returns true for the empty string, \<open>()\<close> and \<open>(a(b)c)\<close>, and false for
  \<open>)(\<close>, \<open>((\<close> and \<open>)\<close>.
\<close>

theorem isSyntaxSafe_depth_counter:
  "(isSyntaxSafe s \<longleftrightarrow>
      (\<forall>n\<le>length s. 0 \<le> spec_depth (take n s)) \<and> spec_depth s = 0)
   \<and> isSyntaxSafe (lit '''') \<and> isSyntaxSafe (lit ''()'') \<and> isSyntaxSafe (lit ''(a(b)c)'')
   \<and> \<not> isSyntaxSafe (lit '')('') \<and> \<not> isSyntaxSafe (lit ''(('') \<and> \<not> isSyntaxSafe (lit '')'')"
proof -
  have "isSyntaxSafe s \<longleftrightarrow>
      (\<forall>n\<le>length s. 0 \<le> spec_depth (take n s)) \<and> spec_depth s = 0"
    by (simp add: isSyntaxSafe_spec spec_isBalanced_iff)
  moreover have "isSyntaxSafe (lit '''')" "isSyntaxSafe (lit ''()'')"
    "isSyntaxSafe (lit ''(a(b)c)'')"
    by (simp_all add: isSyntaxSafe_def lit_def isHighSurrogate_def isLowSurrogate_def)
  moreover have "\<not> isSyntaxSafe (lit '')('')" "\<not> isSyntaxSafe (lit ''(('')"
    "\<not> isSyntaxSafe (lit '')'')"
    by (simp_all add: isSyntaxSafe_def lit_def isHighSurrogate_def isLowSurrogate_def)
  ultimately show ?thesis by blast
qed

theorem isSyntaxSafe_depth_counter_witness:
  "isSyntaxSafe (lit ''(a(b)c)'')
   \<and> 0 \<le> spec_depth (take 3 (lit ''(a(b)c)'')) \<and> spec_depth (lit ''(a(b)c)'') = 0
   \<and> \<not> isSyntaxSafe (lit '')('') \<and> spec_depth (take 1 (lit '')('')) < 0"
proof -
  have "3 \<le> length (lit ''(a(b)c)'')" by (simp add: lit_def)
  then have "0 \<le> spec_depth (take 3 (lit ''(a(b)c)''))" "spec_depth (lit ''(a(b)c)'') = 0"
    using isSyntaxSafe_depth_counter [of "lit ''(a(b)c)''"] by blast+
  moreover have "spec_depth (take 1 (lit '')('')) < 0" by (simp add: lit_def spec_depth_def)
  ultimately show ?thesis using isSyntaxSafe_depth_counter [of "[]"] by blast
qed

section \<open>The term processor\<close>

lemma escapeParen_paren: "isParen c \<Longrightarrow> escapeParen c = [0x5C, c]"
  by (auto simp: escapeParen_def isParen_def lit_def)

lemma escapeParen_other: "\<not> isParen c \<Longrightarrow> escapeParen c = [c]"
  by (auto simp: escapeParen_def isParen_def)

lemma backslash_not_paren: "\<not> isParen 0x5C"
  by (simp add: isParen_def)

lemma scan_escape: "0 \<le> k \<Longrightarrow> scan (concat (map escapeParen t)) k = scan t k"
proof (induction t arbitrary: k)
  case Nil
  show ?case by simp
next
  case (Cons c t)
  show ?case
  proof (cases "isParen c")
    case True
    define k' where "k' = (if c = 0x28 then k + 1 else if c = 0x29 then k - 1 else k)"
    have a: "scan (c # t) k = (if k' < 0 then False else scan t k')"
      by (simp add: k'_def Let_def)
    have b: "scan (concat (map escapeParen (c # t))) k
        = (if k' < 0 then False else scan (concat (map escapeParen t)) k')"
      using Cons.prems True
      by (simp add: escapeParen_paren k'_def Let_def)
    show ?thesis
    proof (cases "k' < 0")
      case True
      then show ?thesis unfolding a b by simp
    next
      case False
      then have "0 \<le> k'" by simp
      from Cons.IH [OF this] show ?thesis unfolding a b by simp
    qed
  next
    case False
    then show ?thesis using Cons
      by (simp add: escapeParen_other isParen_def Let_def)
  qed
qed

lemma scan_no_paren: "\<forall>c\<in>set t. \<not> isParen c \<Longrightarrow> 0 \<le> k \<Longrightarrow> scan t k = (k = 0)"
  by (induction t arbitrary: k) (auto simp: isParen_def Let_def)

lemma unsafe_has_paren: "\<not> isSyntaxSafe t \<Longrightarrow> filter isParen t \<noteq> []"
proof (rule ccontr)
  assume u: "\<not> isSyntaxSafe t" and "\<not> filter isParen t \<noteq> []"
  then have "\<forall>c\<in>set t. \<not> isParen c" by (simp add: filter_empty_conv)
  then have "scan t 0" by (simp add: scan_no_paren)
  with u show False by (simp add: isSyntaxSafe_scan)
qed

lemma length_escape:
  "length (concat (map escapeParen t)) = length t + length (filter isParen t)"
  by (induction t) (auto simp: escapeParen_paren escapeParen_other)

lemma filter_escape: "filter isParen (concat (map escapeParen t)) = filter isParen t"
  by (induction t) (auto simp: escapeParen_paren escapeParen_other backslash_not_paren)

lemma escape_head: "concat (map escapeParen t) = x # xs \<Longrightarrow> \<not> isParen x"
  by (cases t) (auto simp: escapeParen_def isParen_def lit_def split: if_splits)

lemma unescape_other: "\<not> isParen x \<Longrightarrow> unescapeParens (c # x # xs) = c # unescapeParens (x # xs)"
  by simp

lemma unescape_escape: "unescapeParens (concat (map escapeParen t)) = t"
proof (induction t)
  case Nil
  show ?case by simp
next
  case (Cons c t)
  define r where "r = concat (map escapeParen t)"
  have ih: "unescapeParens r = t" using Cons.IH by (simp add: r_def)
  show ?case
  proof (cases "isParen c")
    case True
    then show ?thesis using ih by (simp add: escapeParen_paren r_def)
  next
    case False
    have "unescapeParens (c # r) = c # t"
    proof (cases r)
      case Nil
      with ih show ?thesis by simp
    next
      case (Cons x xs)
      then have "\<not> isParen x" using escape_head [of t x xs] by (simp add: r_def)
      then have "unescapeParens (c # x # xs) = c # unescapeParens (x # xs)"
        by (rule unescape_other)
      with ih Cons show ?thesis by simp
    qed
    then show ?thesis using False by (simp add: escapeParen_other r_def)
  qed
qed

lemma escape_preceded:
  "j < length (concat (map escapeParen t)) \<Longrightarrow> isParen (concat (map escapeParen t) ! j)
   \<Longrightarrow> 0 < j \<and> concat (map escapeParen t) ! (j - 1) = 0x5C"
proof (induction t arbitrary: j rule: rev_induct)
  case Nil
  then show ?case by simp
next
  case (snoc c t)
  let ?r = "concat (map escapeParen t)"
  show ?case
  proof (cases "j < length ?r")
    case True
    with snoc.prems have "isParen (?r ! j)" by (simp add: nth_append)
    from snoc.IH [OF True this] have ih: "0 < j" "?r ! (j - 1) = 0x5C" by simp_all
    have "j - 1 < length ?r" using True by simp
    then have "concat (map escapeParen (t @ [c])) ! (j - 1) = ?r ! (j - 1)"
      by (simp add: nth_append)
    with ih show ?thesis by simp
  next
    case False
    show ?thesis
    proof (cases "isParen c")
      case p: True
      with snoc.prems False have "j = length ?r \<or> j = Suc (length ?r)"
        by (auto simp: escapeParen_paren)
      then show ?thesis
      proof
        assume "j = length ?r"
        with snoc.prems p show ?thesis
          by (simp add: nth_append escapeParen_paren backslash_not_paren)
      next
        assume "j = Suc (length ?r)"
        with p show ?thesis by (simp add: nth_append escapeParen_paren)
      qed
    next
      case np: False
      with snoc.prems False have "j = length ?r" by (auto simp: escapeParen_other)
      with snoc.prems np show ?thesis by (simp add: nth_append escapeParen_other)
    qed
  qed
qed

lemma processTerm_unsafe: "\<not> isSyntaxSafe t \<Longrightarrow> processTerm t = concat (map escapeParen t)"
  by (simp add: processTerm_def)

lemma processTerm_safe: "isSyntaxSafe t \<Longrightarrow> processTerm t = t"
  by (simp add: processTerm_def)

lemma isSyntaxSafe_processTerm: "isSyntaxSafe (processTerm t) = isSyntaxSafe t"
  by (cases "isSyntaxSafe t") (simp_all add: processTerm_def isSyntaxSafe_scan scan_escape)

lemma processTerm_longer:
  "\<not> isSyntaxSafe t \<Longrightarrow> length t < length (processTerm t)"
  using unsafe_has_paren [of t] by (simp add: processTerm_unsafe length_escape)

text \<open>
  C7. \<open>processTerm t\<close> equals \<open>t\<close> exactly when \<open>isSyntaxSafe t\<close> holds. When it does not
  hold, every parenthesis of the result stands right after a backslash, taking those
  backslashes away gives \<open>t\<close> back (one backslash was put before each parenthesis and
  nothing else was changed), and the parentheses of the result are those of \<open>t\<close>.
\<close>

theorem processTerm_escapes:
  "(processTerm t = t \<longleftrightarrow> isSyntaxSafe t)
   \<and> (\<not> isSyntaxSafe t \<longrightarrow>
        (\<forall>j<length (processTerm t).
            isParen (processTerm t ! j) \<longrightarrow> 0 < j \<and> processTerm t ! (j - 1) = 0x5C)
        \<and> unescapeParens (processTerm t) = t
        \<and> filter isParen (processTerm t) = filter isParen t
        \<and> length (processTerm t) = length t + length (filter isParen t))"
proof (cases "isSyntaxSafe t")
  case True
  then show ?thesis by (simp add: processTerm_safe)
next
  case False
  have "processTerm t \<noteq> t" using processTerm_longer [OF False] by auto
  moreover have "\<forall>j<length (processTerm t).
      isParen (processTerm t ! j) \<longrightarrow> 0 < j \<and> processTerm t ! (j - 1) = 0x5C"
    using escape_preceded [of _ t] by (simp add: processTerm_unsafe [OF False])
  moreover have "unescapeParens (processTerm t) = t"
    by (simp add: processTerm_unsafe [OF False] unescape_escape)
  moreover have "filter isParen (processTerm t) = filter isParen t"
    by (simp add: processTerm_unsafe [OF False] filter_escape)
  moreover have "length (processTerm t) = length t + length (filter isParen t)"
    by (simp add: processTerm_unsafe [OF False] length_escape)
  ultimately show ?thesis using False by blast
qed

theorem processTerm_escapes_witness:
  "\<not> isSyntaxSafe (lit ''a)b('')
   \<and> processTerm (lit ''a)b('') = [0x61, 0x5C, 0x29, 0x62, 0x5C, 0x28]
   \<and> processTerm (lit ''a)b('') \<noteq> lit ''a)b(''
   \<and> isParen (processTerm (lit ''a)b('') ! 2) \<and> processTerm (lit ''a)b('') ! (2 - 1) = 0x5C
   \<and> unescapeParens (processTerm (lit ''a)b('')) = lit ''a)b(''
   \<and> length (processTerm (lit ''a)b('')) = length (lit ''a)b('') + length (filter isParen (lit ''a)b(''))"
proof -
  have u: "\<not> isSyntaxSafe (lit ''a)b('')"
    by (simp add: isSyntaxSafe_def lit_def isHighSurrogate_def isLowSurrogate_def)
  have v: "processTerm (lit ''a)b('') = [0x61, 0x5C, 0x29, 0x62, 0x5C, 0x28]"
    using u by (simp add: processTerm_def) (simp add: lit_def escapeParen_def)
  have "2 < length (processTerm (lit ''a)b(''))" "isParen (processTerm (lit ''a)b('') ! 2)"
    by (simp_all add: v isParen_def)
  with u v show ?thesis using processTerm_escapes [of "lit ''a)b(''"] by blast
qed

text \<open>
  C10. The syntax check gives the same answer before and after \<open>processTerm\<close>: the
  backslashes do not count. So the result of escaping an unbalanced term is still
  unbalanced, and a second \<open>processTerm\<close> escapes its parentheses again and changes it.
\<close>

theorem processTerm_keeps_balance:
  "isSyntaxSafe (processTerm t) = isSyntaxSafe t
   \<and> (\<not> isSyntaxSafe t \<longrightarrow>
        processTerm (processTerm t) = concat (map escapeParen (processTerm t))
        \<and> processTerm (processTerm t) \<noteq> processTerm t)"
proof -
  have a: "isSyntaxSafe (processTerm t) = isSyntaxSafe t"
    by (rule isSyntaxSafe_processTerm)
  have "processTerm (processTerm t) = concat (map escapeParen (processTerm t))
      \<and> processTerm (processTerm t) \<noteq> processTerm t" if u: "\<not> isSyntaxSafe t"
  proof -
    from u a have u': "\<not> isSyntaxSafe (processTerm t)" by simp
    from processTerm_longer [OF u'] have "processTerm (processTerm t) \<noteq> processTerm t"
      by auto
    with processTerm_unsafe [OF u'] show ?thesis by simp
  qed
  with a show ?thesis by blast
qed

theorem processTerm_keeps_balance_witness:
  "\<not> isSyntaxSafe (lit '')('')
   \<and> \<not> isSyntaxSafe (processTerm (lit '')(''))
   \<and> processTerm (lit '')('') = [0x5C, 0x29, 0x5C, 0x28]
   \<and> processTerm (processTerm (lit '')('')) = [0x5C, 0x5C, 0x29, 0x5C, 0x5C, 0x28]
   \<and> processTerm (processTerm (lit '')('')) \<noteq> processTerm (lit '')('')"
proof -
  have u: "\<not> isSyntaxSafe (lit '')('')"
    by (simp add: isSyntaxSafe_def lit_def isHighSurrogate_def isLowSurrogate_def)
  have v: "processTerm (lit '')('') = [0x5C, 0x29, 0x5C, 0x28]"
    using u by (simp add: processTerm_def) (simp add: lit_def escapeParen_def)
  have "concat (map escapeParen [0x5C, 0x29, 0x5C, 0x28]) = [0x5C, 0x5C, 0x29, 0x5C, 0x5C, 0x28]"
    by (simp add: escapeParen_def lit_def)
  with u v show ?thesis using processTerm_keeps_balance [of "lit '')(''"] by simp
qed

section \<open>The sanitizer\<close>

lemma dropWhile_rev_tail:
  assumes "\<not> P x"
  shows "\<exists>zs. dropWhile P (rev (x # xs)) = zs @ [x]"
proof (cases "\<exists>y\<in>set (rev xs). \<not> P y")
  case True
  then have "dropWhile P (rev xs @ [x]) = dropWhile P (rev xs) @ [x]"
    by (metis dropWhile_append1)
  then show ?thesis by simp
next
  case False
  then have "\<And>y. y \<in> set (rev xs) \<Longrightarrow> P y" by blast
  then have "dropWhile P (rev xs @ [x]) = dropWhile P [x]"
    by (rule dropWhile_append2)
  with assms show ?thesis by simp
qed

lemma trim_front_stable:
  "dropWhile P (rev (dropWhile P (rev (dropWhile P s)))) = rev (dropWhile P (rev (dropWhile P s)))"
proof (cases "dropWhile P s")
  case Nil
  show ?thesis unfolding Nil by simp
next
  case (Cons x xs)
  then have "\<not> P x" by (metis hd_dropWhile list.sel(1) list.distinct(1))
  from dropWhile_rev_tail [of P x xs] this obtain zs
    where "dropWhile P (rev (x # xs)) = zs @ [x]" by blast
  with \<open>\<not> P x\<close> show ?thesis unfolding Cons by simp
qed

lemma trim_idem: "trim (trim s) = trim s"
proof -
  have "dropWhile isWhiteSpace (trim s) = trim s"
    unfolding trim_def by (rule trim_front_stable)
  then show ?thesis by (simp add: trim_def)
qed

lemma set_trim: "set (trim s) \<subseteq> set s"
proof -
  have "set (dropWhile isWhiteSpace (rev (dropWhile isWhiteSpace s)))
      \<subseteq> set (rev (dropWhile isWhiteSpace s))"
    by (rule set_dropWhileD [THEN subsetI])
  also have "\<dots> \<subseteq> set s" using set_dropWhileD [of _ isWhiteSpace s] by auto
  finally show ?thesis by (simp add: trim_def)
qed

lemma straighten_not_control:
  "\<not> isControl c \<Longrightarrow> \<not> isControl (straightenDouble (straightenSingle c))"
  by (simp add: isControl_def straightenDouble_def straightenSingle_def)

lemma straightenSingle_fixed:
  "straightenSingle (straightenDouble (straightenSingle c)) = straightenDouble (straightenSingle c)"
  by (simp add: straightenDouble_def straightenSingle_def)

lemma straightenDouble_fixed:
  "straightenDouble (straightenDouble (straightenSingle c)) = straightenDouble (straightenSingle c)"
  by (simp add: straightenDouble_def straightenSingle_def)

lemma sanitizeInput_members:
  assumes "c \<in> set (sanitizeInput raw)"
  shows "\<not> isControl c \<and> straightenSingle c = c \<and> straightenDouble c = c"
proof -
  from assms set_trim have
    "c \<in> set (map straightenDouble (map straightenSingle (filter (\<lambda>c. \<not> isControl c) raw)))"
    unfolding sanitizeInput_def by blast
  then obtain x where x: "\<not> isControl x" "c = straightenDouble (straightenSingle x)"
    by auto
  then show ?thesis
    by (simp add: straighten_not_control straightenSingle_fixed straightenDouble_fixed)
qed

text \<open>
  C8. \<open>sanitizeInput\<close> (the specification's \<open>sanitize\<close>) is idempotent: what it returns
  holds no control character and no curly quote and is trimmed, so a second call changes
  nothing.
\<close>

theorem sanitizeInput_idempotent: "sanitizeInput (sanitizeInput s) = sanitizeInput s"
proof -
  let ?r = "sanitizeInput s"
  have m: "\<forall>c\<in>set ?r. \<not> isControl c \<and> straightenSingle c = c \<and> straightenDouble c = c"
    using sanitizeInput_members by blast
  then have "filter (\<lambda>c. \<not> isControl c) ?r = ?r" by (simp add: filter_id_conv)
  moreover from m have "map straightenSingle ?r = ?r" by (simp add: map_idI)
  moreover from m have "map straightenDouble ?r = ?r" by (simp add: map_idI)
  ultimately have "sanitizeInput ?r = trim ?r" by (simp add: sanitizeInput_def)
  also have "\<dots> = ?r" by (simp add: sanitizeInput_def trim_idem)
  finally show ?thesis .
qed

lemma sanitize_example:
  "sanitizeInput [0x20, 0x2018, 0x61, 0x09, 0x201D, 0x7F, 0x3000] = [0x27, 0x61, 0x22]"
  by (simp add: sanitizeInput_def trim_def isControl_def straightenSingle_def
      straightenDouble_def isWhiteSpace_def)

section \<open>The query builder\<close>

lemma replace_template:
  "replaceFirst template (lit ''%NUM%'') r = lit ''site:*.*.'' @ r @ lit ''.* |''"
  by (simp add: template_def lit_def)

lemma fragment_replace: "0 \<le> ii \<Longrightarrow> replaceFirst template (lit ''%NUM%'') (toString ii) = fragment (nat ii)"
  by (simp add: replace_template fragment_def)

lemma queryPart_loop_concat:
  "0 \<le> ii \<Longrightarrow> queryPart_loop ii n qp = qp @ concat (map fragment [nat ii..<nat n])"
proof (induction ii n qp rule: queryPart_loop.induct)
  case (1 ii n qp)
  show ?case
  proof (cases "ii < n")
    case True
    with "1.prems" have u: "[nat ii..<nat n] = nat ii # [nat (ii + 1)..<nat n]"
      by (simp add: upt_conv_Cons nat_add_distrib)
    from "1.prems" have "0 \<le> ii + 1" by simp
    from "1.IH" [OF True this] True "1.prems" show ?thesis
      by (subst queryPart_loop.simps) (simp add: u fragment_replace)
  next
    case False
    then have "[nat ii..<nat n] = []" by simp
    with False show ?thesis by (subst queryPart_loop.simps) simp
  qed
qed

lemma queryPart_loop_nonpositive: "n \<le> 0 \<Longrightarrow> queryPart_loop 0 n [] = []"
  by (subst queryPart_loop.simps) simp

lemma slice_drop_last: "slice_str s 0 (- 1) = butlast s"
proof -
  have "nat (max (int (length s) - 1) 0) = length s - 1" by arith
  then show ?thesis by (simp add: slice_str_def Let_def butlast_conv_take)
qed

lemma iterations_positive: "1 \<le> iterations t p i"
  by (simp add: iterations_def)

lemma queryPart_butlast:
  "queryPart t p i = butlast (concat (map fragment [0..<nat (iterations t p i)]))"
  by (simp add: queryPart_def slice_drop_last queryPart_loop_concat)

lemma fragment_ends: "\<exists>f. fragment ii = f @ lit ''|''"
  by (simp add: fragment_def lit_def)

lemma clauses_end:
  assumes "0 < n"
  shows "\<exists>f. concat (map fragment [0..<n]) = f @ lit ''|''"
proof -
  from assms obtain m where n: "n = Suc m" by (cases n) auto
  obtain f where "fragment m = f @ lit ''|''" using fragment_ends by blast
  then have "concat (map fragment [0..<n]) = (concat (map fragment [0..<m]) @ f) @ lit ''|''"
    by (simp add: n)
  then show ?thesis by blast
qed

subsection \<open>Well-formed strings and encodeURIComponent\<close>

lemma unescaped_not_surrogate:
  "isUnescaped c \<Longrightarrow> \<not> isHighSurrogate c \<and> \<not> isLowSurrogate c"
  by (auto simp: isUnescaped_def isHighSurrogate_def isLowSurrogate_def lit_def
      word_le_nat_alt)

lemma encodeURIComponent_wellFormed:
  "(wellFormed s \<longrightarrow> (\<exists>r. encodeURIComponent s = Inr r))
   \<and> (\<not> wellFormed s \<longrightarrow> encodeURIComponent s = Inl URIError)"
proof (induction s rule: encodeURIComponent.induct)
  case 1
  show ?case by simp
next
  case (2 c)
  show ?case using unescaped_not_surrogate [of c] by auto
next
  case (3 c d cs)
  show ?case
  proof (cases "isUnescaped c")
    case True
    with 3 unescaped_not_surrogate [of c] show ?thesis by auto
  next
    case nu: False
    show ?thesis
    proof (cases "isHighSurrogate c \<and> isLowSurrogate d")
      case True
      with 3 nu show ?thesis by auto
    next
      case False
      with 3 nu show ?thesis by auto
    qed
  qed
qed

lemma wellFormed_Cons:
  "\<not> isHighSurrogate c \<Longrightarrow> \<not> isLowSurrogate c \<Longrightarrow> wellFormed (c # s) = wellFormed s"
  by (cases s) auto

lemma wellFormed_plain:
  "\<forall>c\<in>set b. \<not> isHighSurrogate c \<and> \<not> isLowSurrogate c \<Longrightarrow> wellFormed b"
  by (induction b) (auto simp: wellFormed_Cons)

lemma wellFormed_append_plain:
  assumes "\<forall>c\<in>set b. \<not> isHighSurrogate c \<and> \<not> isLowSurrogate c"
  shows "wellFormed (t @ b) = wellFormed t"
proof (induction t rule: wellFormed.induct)
  case 1
  show ?case using assms by (simp add: wellFormed_plain)
next
  case (2 c)
  show ?case
  proof (cases b)
    case Nil
    then show ?thesis by simp
  next
    case (Cons d ds)
    with assms have "\<not> isLowSurrogate d" "wellFormed (d # ds)"
      using wellFormed_plain [of b] by auto
    with Cons show ?thesis by simp
  qed
next
  case (3 c d cs)
  then show ?case by auto
qed

lemma natToString_digits: "c \<in> set (natToString n) \<Longrightarrow> c \<in> set (lit ''0123456789'')"
proof (induction n rule: natToString.induct)
  case (1 n)
  have len: "length (lit ''0123456789'') = 10" by (simp add: lit_def)
  show ?case
  proof (cases "n < 10")
    case True
    with "1.prems" have "c = lit ''0123456789'' ! n"
      by (subst (asm) natToString.simps) simp
    with True len show ?thesis by (metis nth_mem)
  next
    case False
    with "1.prems" have "c \<in> set (natToString (n div 10)) \<or> c = lit ''0123456789'' ! (n mod 10)"
      by (subst (asm) natToString.simps) auto
    then show ?thesis
    proof
      assume "c \<in> set (natToString (n div 10))"
      with "1.IH" False show ?thesis by simp
    next
      assume "c = lit ''0123456789'' ! (n mod 10)"
      moreover have "n mod 10 < length (lit ''0123456789'')" using len by simp
      ultimately show ?thesis by (metis nth_mem)
    qed
  qed
qed

lemma fragment_plain:
  "c \<in> set (fragment ii) \<Longrightarrow> \<not> isHighSurrogate c \<and> \<not> isLowSurrogate c"
proof -
  assume "c \<in> set (fragment ii)"
  then have "c \<in> set (lit ''site:*.*.'') \<or> c \<in> set (lit ''0123456789'') \<or> c \<in> set (lit ''.* |'')"
    using natToString_digits [of c ii] by (auto simp: fragment_def toString_def)
  then show ?thesis
    by (auto simp: lit_def isHighSurrogate_def isLowSurrogate_def)
qed

lemma queryPart_plain:
  "c \<in> set (queryPart t p i) \<Longrightarrow> \<not> isHighSurrogate c \<and> \<not> isLowSurrogate c"
proof -
  assume "c \<in> set (queryPart t p i)"
  then have "c \<in> set (concat (map fragment [0..<nat (iterations t p i)]))"
    unfolding queryPart_butlast by (rule in_set_butlastD)
  then show ?thesis using fragment_plain by auto
qed

lemma wellFormed_finalQuery:
  "wellFormed (finalQuery t (queryPart t p i)) = wellFormed t"
proof -
  let ?b = "lit '') ('' @ queryPart t p i @ lit '')''"
  have b: "\<forall>c\<in>set ?b. \<not> isHighSurrogate c \<and> \<not> isLowSurrogate c"
    using queryPart_plain [of _ t p i]
    by (auto simp: lit_def isHighSurrogate_def isLowSurrogate_def)
  have "wellFormed (finalQuery t (queryPart t p i)) = wellFormed (t @ ?b)"
    by (simp add: finalQuery_def lit_def wellFormed_Cons isHighSurrogate_def isLowSurrogate_def)
  also have "\<dots> = wellFormed t" using b by (rule wellFormed_append_plain)
  finally show ?thesis .
qed

lemma searchUrl_wellFormed:
  "wellFormed t \<Longrightarrow> \<exists>u. searchUrl t p i = Inr u"
  using encodeURIComponent_wellFormed [of "finalQuery t (queryPart t p i)"]
  by (auto simp: searchUrl_def wellFormed_finalQuery)

lemma searchUrl_malformed:
  "\<not> wellFormed t \<Longrightarrow> searchUrl t p i = Inl URIError"
  using encodeURIComponent_wellFormed [of "finalQuery t (queryPart t p i)"]
  by (auto simp: searchUrl_def wellFormed_finalQuery)

text \<open>
  What \<open>encodeURIComponent\<close> returns is made of unreserved code units and percent
  signs only: every octet is below 256, so both of its hexadecimal digits exist.
\<close>

lemma utf8_octets: "cp < 0x110000 \<Longrightarrow> b \<in> set (utf8 cp) \<Longrightarrow> b < 256"
  by (auto simp: utf8_def split: if_splits)

lemma hex_digit_unescaped: "k < 16 \<Longrightarrow> isUnescaped (lit ''0123456789ABCDEF'' ! k)"
proof -
  assume "k < 16"
  then have "k \<in> {0, 1, 2, 3, 4, 5, 6, 7, 8, 9, 10, 11, 12, 13, 14, 15}" by simp arith
  then show ?thesis by (auto simp: lit_def isUnescaped_def)
qed

lemma percent_alphabet:
  assumes "b < 256" and "c \<in> set (percent b)"
  shows "isUnescaped c \<or> c = 0x25"
proof -
  from assms(1) have "b div 16 < 16" "b mod 16 < 16" by simp_all
  then have "isUnescaped (lit ''0123456789ABCDEF'' ! (b div 16))"
    "isUnescaped (lit ''0123456789ABCDEF'' ! (b mod 16))"
    by (simp_all only: hex_digit_unescaped)
  with assms(2) show ?thesis by (auto simp: percent_def lit_def)
qed

lemma escapeCodePoint_alphabet:
  "cp < 0x110000 \<Longrightarrow> c \<in> set (escapeCodePoint cp) \<Longrightarrow> isUnescaped c \<or> c = 0x25"
  using utf8_octets percent_alphabet by (auto simp: escapeCodePoint_def)

lemma unit_codePoint: "unat (c :: 16 word) < 0x110000"
proof -
  have "unat c < 2 ^ LENGTH(16)" by (rule unsigned_less)
  then show ?thesis by simp
qed

lemma pairCodePoint_bound:
  assumes "isHighSurrogate c" and "isLowSurrogate d"
  shows "pairCodePoint c d < 0x110000"
proof -
  from assms have "unat c \<le> 56319" "unat d \<le> 57343"
    by (simp_all add: isHighSurrogate_def isLowSurrogate_def word_le_nat_alt)
  then show ?thesis unfolding pairCodePoint_def by arith
qed

lemma encodeURIComponent_alphabet:
  "encodeURIComponent s = Inr q \<Longrightarrow> x \<in> set q \<Longrightarrow> isUnescaped x \<or> x = 0x25"
proof (induction s arbitrary: q rule: encodeURIComponent.induct)
  case 1
  then show ?case by simp
next
  case (2 c)
  then show ?case
    using escapeCodePoint_alphabet [OF unit_codePoint, of x c]
    by (auto split: if_splits)
next
  case (3 c d cs)
  show ?case
  proof (cases "isUnescaped c")
    case True
    with "3.prems" obtain r where "encodeURIComponent (d # cs) = Inr r" "q = c # r"
      by (auto split: sum.splits)
    with "3.IH"(1) [OF True] True "3.prems"(2) show ?thesis by auto
  next
    case nu: False
    show ?thesis
    proof (cases "isHighSurrogate c \<and> isLowSurrogate d")
      case True
      with nu "3.prems" obtain r where r: "encodeURIComponent cs = Inr r"
        "q = escapeCodePoint (pairCodePoint c d) @ r"
        by (auto split: sum.splits)
      from True have "pairCodePoint c d < 0x110000" by (simp add: pairCodePoint_bound)
      with r "3.IH"(2) [OF nu True] "3.prems"(2) escapeCodePoint_alphabet show ?thesis by auto
    next
      case False
      with nu "3.prems" have ns: "\<not> (isHighSurrogate c \<or> isLowSurrogate c)"
        by (auto split: if_splits)
      with False nu "3.prems" obtain r where r: "encodeURIComponent (d # cs) = Inr r"
        "q = escapeCodePoint (unat c) @ r"
        by (auto split: sum.splits)
      with "3.IH"(3) [OF nu False ns] "3.prems"(2)
        escapeCodePoint_alphabet [OF unit_codePoint, of x c] show ?thesis by auto
    qed
  qed
qed

subsection \<open>The outer loop\<close>

lemma generatedUrls_loop_result:
  "generatedUrls_loop t p i acc = Inr r \<Longrightarrow>
   \<exists>us. r = acc @ us \<and> int (length us) = max (vectorCount p - i) 0
     \<and> (\<forall>k<length us. searchUrl t p (i + int k) = Inr (us ! k))"
proof (induction t p i acc arbitrary: r rule: generatedUrls_loop.induct)
  case (1 t p i acc)
  show ?case
  proof (cases "i < vectorCount p")
    case False
    with "1.prems" have "r = acc" by (subst (asm) generatedUrls_loop.simps) simp
    with False show ?thesis by simp
  next
    case True
    show ?thesis
    proof (cases "searchUrl t p i")
      case (Inl e)
      with True "1.prems" show ?thesis by (subst (asm) generatedUrls_loop.simps) simp
    next
      case (Inr u)
      with True "1.prems" have "generatedUrls_loop t p (i + 1) (acc @ [u]) = Inr r"
        by (subst (asm) generatedUrls_loop.simps) simp
      from "1.IH" [OF True Inr this] obtain us where us: "r = (acc @ [u]) @ us"
        "int (length us) = max (vectorCount p - (i + 1)) 0"
        "\<forall>k<length us. searchUrl t p (i + 1 + int k) = Inr (us ! k)" by blast
      have "\<forall>k<length (u # us). searchUrl t p (i + int k) = Inr ((u # us) ! k)"
      proof (intro allI impI)
        fix k assume k: "k < length (u # us)"
        show "searchUrl t p (i + int k) = Inr ((u # us) ! k)"
        proof (cases k)
          case 0
          with Inr show ?thesis by simp
        next
          case (Suc m)
          with k have "m < length us" by simp
          with us(3) have "searchUrl t p (i + 1 + int m) = Inr (us ! m)" by blast
          with Suc show ?thesis by (simp add: add.assoc)
        qed
      qed
      moreover have "r = acc @ (u # us)" using us(1) by simp
      moreover have "int (length (u # us)) = max (vectorCount p - i) 0"
        using us(2) True by simp
      ultimately show ?thesis by blast
    qed
  qed
qed

lemma generatedUrls_loop_returns:
  "\<forall>j. \<exists>u. searchUrl t p j = Inr u \<Longrightarrow> \<exists>r. generatedUrls_loop t p i acc = Inr r"
proof (induction t p i acc rule: generatedUrls_loop.induct)
  case (1 t p i acc)
  show ?case
  proof (cases "i < vectorCount p")
    case False
    then show ?thesis by (subst generatedUrls_loop.simps) simp
  next
    case True
    from "1.prems" obtain u where u: "searchUrl t p i = Inr u" by blast
    from "1.IH" [OF True u "1.prems"] obtain r
      where "generatedUrls_loop t p (i + 1) (acc @ [u]) = Inr r" by blast
    with True u show ?thesis by (subst generatedUrls_loop.simps) simp
  qed
qed

lemma buildVectors_result:
  assumes "buildVectors t p = Inr urls"
  shows "int (length urls) = max (vectorCount p) 0"
    and "k < length urls \<Longrightarrow> searchUrl t p (int k) = Inr (urls ! k)"
proof -
  from generatedUrls_loop_result [of t p 0 "[]" urls] assms
  have a: "int (length urls) = max (vectorCount p) 0"
    and b: "\<forall>k<length urls. searchUrl t p (int k) = Inr (urls ! k)"
    by (auto simp: buildVectors_def)
  show "int (length urls) = max (vectorCount p) 0" by (rule a)
  show "k < length urls \<Longrightarrow> searchUrl t p (int k) = Inr (urls ! k)" using b by blast
qed

lemma buildVectors_wellFormed: "wellFormed t \<Longrightarrow> \<exists>urls. buildVectors t p = Inr urls"
  unfolding buildVectors_def
  by (rule generatedUrls_loop_returns) (simp add: searchUrl_wellFormed)

lemma buildVectors_malformed:
  "\<not> wellFormed t \<Longrightarrow> 0 < vectorCount p \<Longrightarrow> buildVectors t p = Inl URIError"
  unfolding buildVectors_def
  by (subst generatedUrls_loop.simps) (simp add: searchUrl_malformed)

lemma buildVectors_none: "vectorCount p \<le> 0 \<Longrightarrow> buildVectors t p = Inr []"
  unfolding buildVectors_def
  by (subst generatedUrls_loop.simps) simp

lemma wellFormed_test: "wellFormed (lit ''test'')"
  by (simp add: lit_def isHighSurrogate_def isLowSurrogate_def)

section \<open>The generated vectors\<close>

lemma split_length: "length (split s sep) = Suc (count_list s sep)"
proof -
  have "length (split_from sep cur s) = Suc (count_list s sep)" for cur
    by (induction s arbitrary: cur) auto
  then show ?thesis by (simp add: split_def)
qed

lemma wordCount_test: "wordCount (lit ''test'') = 1"
  by (simp add: wordCount_def split_def lit_def)

lemma inBounds_default: "inBounds \<lparr>vectorCount = 10, density = 257, pageOffset = 0\<rparr>"
  by (simp add: inBounds_def)

lemma natToString_digit: "n < 10 \<Longrightarrow> natToString n = [lit ''0123456789'' ! n]"
  by (subst natToString.simps) simp

text \<open>
  Every fragment holds one colon, that of \<open>site:\<close>, so the colons of a clause string
  count its clauses.
\<close>

lemma colon_not_digit: "0x3A \<notin> set (natToString n)"
proof
  assume "0x3A \<in> set (natToString n)"
  then have "(0x3A :: 16 word) \<in> set (lit ''0123456789'')" by (rule natToString_digits)
  then show False by (simp add: lit_def)
qed

lemma fragment_one_colon: "count_list (fragment ii) 0x3A = 1"
proof -
  have "count_list (natToString ii) 0x3A = 0"
    using colon_not_digit [of ii] by (simp add: count_list_0_iff)
  then show ?thesis by (simp add: fragment_def toString_def lit_def)
qed

lemma clauses_colons: "count_list (concat (map fragment [0..<n])) 0x3A = n"
  by (induction n) (simp_all add: fragment_one_colon)

lemma queryPart_colons: "count_list (queryPart t p i) 0x3A = nat (iterations t p i)"
proof -
  let ?c = "concat (map fragment [0..<nat (iterations t p i)])"
  have "0 < nat (iterations t p i)" using iterations_positive [of t p i] by simp
  from clauses_end [OF this] obtain f where f: "?c = f @ lit ''|''" by blast
  then have "queryPart t p i = f" by (simp add: queryPart_butlast lit_def)
  moreover from f have "count_list ?c 0x3A = count_list f 0x3A" by (simp add: lit_def)
  ultimately show ?thesis by (simp add: clauses_colons)
qed

text \<open>
  C1. For a vector index \<open>i\<close> from 0 to \<open>vectorCount - 1\<close>, the inner loop appends exactly
  \<open>n = max (density - i * decayFactor) 1\<close> clauses, those of the indices 0 to \<open>n - 1\<close>,
  where \<open>decayFactor = max (32 - wordCount) 1\<close> and \<open>wordCount\<close> is the number of segments
  of the term split at the space; \<open>n\<close> is at least 1 and is the number of \<open>site:\<close> clauses
  in the string. The URL pushed for vector \<open>i\<close>, which is the URL at index \<open>i\<close> of the
  generated list, is the encoding of the query made of the term and of exactly this clause
  string without its last code unit.
\<close>

theorem vector_iterations:
  assumes "inBounds p" and "0 \<le> i" and "i < vectorCount p"
  shows "(let n = max (density p - i * max (32 - int (length (split t 0x20))) 1) 1;
              clauses = concat (map fragment [0..<nat n]) in
           iterations t p i = n \<and> 1 \<le> n
           \<and> queryPart_loop 0 (iterations t p i) [] = clauses
           \<and> count_list clauses 0x3A = nat n
           \<and> queryPart t p i = slice_str clauses 0 (- 1)
           \<and> searchUrl t p i =
               (case encodeURIComponent
                       (lit ''('' @ t @ lit '') ('' @ slice_str clauses 0 (- 1) @ lit '')'') of
                  Inl e \<Rightarrow> Inl e
                | Inr q \<Rightarrow>
                    Inr (lit ''https://www.google.com/search?q='' @ q @ lit ''&start=''
                         @ toString (pageOffset p * 10)))
           \<and> (\<forall>urls. buildVectors t p = Inr urls \<longrightarrow>
                 (\<exists>q. encodeURIComponent
                         (lit ''('' @ t @ lit '') ('' @ slice_str clauses 0 (- 1) @ lit '')'')
                       = Inr q
                    \<and> urls ! nat i = lit ''https://www.google.com/search?q='' @ q
                        @ lit ''&start='' @ toString (pageOffset p * 10))))"
proof -
  define n where "n = max (density p - i * max (32 - int (length (split t 0x20))) 1) 1"
  define clauses where "clauses = concat (map fragment [0..<nat n])"
  let ?fq = "lit ''('' @ t @ lit '') ('' @ slice_str clauses 0 (- 1) @ lit '')''"
  have n: "iterations t p i = n"
    by (simp add: n_def iterations_def decayFactor_def wordCount_def)
  have pos: "1 \<le> n" by (simp add: n_def)
  have loop: "queryPart_loop 0 (iterations t p i) [] = clauses"
    by (simp add: n clauses_def queryPart_loop_concat)
  have cnt: "count_list clauses 0x3A = nat n"
    by (simp add: clauses_def clauses_colons)
  have qp: "queryPart t p i = slice_str clauses 0 (- 1)"
    by (simp add: queryPart_def loop)
  have su: "searchUrl t p i =
      (case encodeURIComponent ?fq of
         Inl e \<Rightarrow> Inl e
       | Inr q \<Rightarrow>
           Inr (lit ''https://www.google.com/search?q='' @ q @ lit ''&start=''
                @ toString (pageOffset p * 10)))"
    by (simp add: searchUrl_def finalQuery_def qp)
  have ur: "\<exists>q. encodeURIComponent ?fq = Inr q
        \<and> urls ! nat i = lit ''https://www.google.com/search?q='' @ q
            @ lit ''&start='' @ toString (pageOffset p * 10)"
    if b: "buildVectors t p = Inr urls" for urls
  proof -
    from buildVectors_result(1) [OF b] assms have "nat i < length urls" by simp
    from buildVectors_result(2) [OF b this] assms
    have u: "searchUrl t p i = Inr (urls ! nat i)" by simp
    show ?thesis
    proof (cases "encodeURIComponent ?fq")
      case (Inl e)
      with u su show ?thesis by simp
    next
      case (Inr q)
      with u su show ?thesis by simp
    qed
  qed
  from n pos loop cnt qp su ur show ?thesis
    unfolding Let_def n_def [symmetric] clauses_def [symmetric] by blast
qed

theorem vector_iterations_witness:
  "inBounds \<lparr>vectorCount = 10, density = 257, pageOffset = 0\<rparr>
   \<and> iterations (lit ''test'') \<lparr>vectorCount = 10, density = 257, pageOffset = 0\<rparr> 9 = 1
   \<and> queryPart_loop 0 (iterations (lit ''test'')
        \<lparr>vectorCount = 10, density = 257, pageOffset = 0\<rparr> 9) [] = concat (map fragment [0..<1])
   \<and> count_list (concat (map fragment [0..<1])) 0x3A = 1
   \<and> (\<exists>urls. buildVectors (lit ''test'') \<lparr>vectorCount = 10, density = 257, pageOffset = 0\<rparr>
          = Inr urls
        \<and> (\<exists>q. encodeURIComponent
                 (lit ''('' @ lit ''test'' @ lit '') (''
                  @ slice_str (concat (map fragment [0..<1])) 0 (- 1) @ lit '')'') = Inr q
             \<and> urls ! 9 = lit ''https://www.google.com/search?q='' @ q @ lit ''&start=''
                 @ toString 0))"
proof -
  let ?p = "\<lparr>vectorCount = 10, density = 257, pageOffset = 0\<rparr>"
  have w: "int (length (split (lit ''test'') 0x20)) = 1"
    using wordCount_test by (simp add: wordCount_def)
  have n: "max (density ?p - 9 * max (32 - (1::int)) 1) 1 = 1" by simp
  obtain urls where u: "buildVectors (lit ''test'') ?p = Inr urls"
    using buildVectors_wellFormed [OF wellFormed_test] by blast
  have b: "inBounds ?p" by (rule inBounds_default)
  have "(0::int) \<le> 9" "(9::int) < vectorCount ?p" by simp_all
  from vector_iterations [OF b this, of "lit ''test''"]
  have "iterations (lit ''test'') ?p 9 = 1
      \<and> queryPart_loop 0 (iterations (lit ''test'') ?p 9) [] = concat (map fragment [0..<1])
      \<and> count_list (concat (map fragment [0..<1])) 0x3A = 1
      \<and> (\<forall>urls. buildVectors (lit ''test'') ?p = Inr urls \<longrightarrow>
            (\<exists>q. encodeURIComponent
                    (lit ''('' @ lit ''test'' @ lit '') (''
                     @ slice_str (concat (map fragment [0..<1])) 0 (- 1) @ lit '')'') = Inr q
               \<and> urls ! 9 = lit ''https://www.google.com/search?q='' @ q @ lit ''&start=''
                   @ toString 0))"
    unfolding w n Let_def by auto
  with u b show ?thesis by blast
qed

text \<open>
  C2, as amended. For parameters within the documented bounds and a term in which every
  surrogate is part of a pair, \<open>buildVectors\<close> returns a list of exactly \<open>vectorCount\<close>
  URLs, the URL of vector \<open>k\<close> at index \<open>k\<close>, index 0 first. For a term with an unpaired
  surrogate \<open>encodeURIComponent\<close> throws \<open>URIError\<close> at the first vector and no list is
  returned.
\<close>

theorem buildVectors_count:
  assumes "inBounds p"
  shows "(wellFormed t \<longrightarrow>
            (\<exists>urls. buildVectors t p = Inr urls \<and> int (length urls) = vectorCount p
               \<and> (\<forall>k<length urls. searchUrl t p (int k) = Inr (urls ! k))))
         \<and> (\<not> wellFormed t \<longrightarrow> buildVectors t p = Inl URIError)"
proof (cases "wellFormed t")
  case True
  then obtain urls where u: "buildVectors t p = Inr urls"
    using buildVectors_wellFormed by blast
  from buildVectors_result(1) [OF u] assms have "int (length urls) = vectorCount p"
    by (simp add: inBounds_def)
  moreover have "\<forall>k<length urls. searchUrl t p (int k) = Inr (urls ! k)"
    using buildVectors_result(2) [OF u] by blast
  ultimately show ?thesis using True u by blast
next
  case False
  moreover from assms have "0 < vectorCount p" by (simp add: inBounds_def)
  ultimately show ?thesis by (simp add: buildVectors_malformed)
qed

theorem buildVectors_count_witness:
  "inBounds \<lparr>vectorCount = 10, density = 257, pageOffset = 0\<rparr> \<and> wellFormed (lit ''test'')
   \<and> (\<exists>urls. buildVectors (lit ''test'') \<lparr>vectorCount = 10, density = 257, pageOffset = 0\<rparr>
          = Inr urls \<and> length urls = 10
        \<and> searchUrl (lit ''test'') \<lparr>vectorCount = 10, density = 257, pageOffset = 0\<rparr> 0
          = Inr (urls ! 0))
   \<and> \<not> wellFormed [0x61, 0xDC00]
   \<and> buildVectors [0x61, 0xDC00] \<lparr>vectorCount = 10, density = 257, pageOffset = 0\<rparr>
       = Inl URIError"
proof -
  let ?p = "\<lparr>vectorCount = 10, density = 257, pageOffset = 0\<rparr>"
  have n: "\<not> wellFormed [0x61, 0xDC00]"
    by (simp add: isHighSurrogate_def isLowSurrogate_def)
  from buildVectors_count [OF inBounds_default, of "lit ''test''"] wellFormed_test
  obtain urls where u: "buildVectors (lit ''test'') ?p = Inr urls"
    "int (length urls) = vectorCount ?p"
    "\<forall>k<length urls. searchUrl (lit ''test'') ?p (int k) = Inr (urls ! k)" by blast
  from u(2) have l: "length urls = 10" by simp
  then have "0 < length urls" by simp
  with u(3) have "searchUrl (lit ''test'') ?p (int 0) = Inr (urls ! 0)" by blast
  then have "searchUrl (lit ''test'') ?p 0 = Inr (urls ! 0)" by simp
  with u(1) l n buildVectors_count [OF inBounds_default, of "[0x61, 0xDC00]"]
    inBounds_default wellFormed_test
  show ?thesis by blast
qed

text \<open>
  The claim C2 as it is written fails for a term that is a lone high surrogate.
\<close>

theorem buildVectors_count_counterexample:
  "inBounds \<lparr>vectorCount = 10, density = 257, pageOffset = 0\<rparr>
   \<and> buildVectors [0xD800] \<lparr>vectorCount = 10, density = 257, pageOffset = 0\<rparr>
       = Inl URIError"
proof -
  have "\<not> wellFormed [0xD800]" by (simp add: isHighSurrogate_def)
  then show ?thesis by (simp add: buildVectors_malformed inBounds_default)
qed

text \<open>
  C3. The clause string of every vector is the concatenation of the fragments
  \<open>site:*.*.<ii>.* |\<close> for \<open>ii\<close> from 0 to \<open>iterations - 1\<close> without its last code unit, and
  that code unit is the bar: the space before it stays. For the term \<open>test\<close>, 10 vectors,
  density 257 and page offset 0, the clause string of vector 9 is the single fragment for
  0 without its bar, and the URL at index 9 encodes the query made of it.
\<close>

theorem queryPart_truncation:
  "queryPart t p i = butlast (concat (map fragment [0..<nat (iterations t p i)]))
   \<and> concat (map fragment [0..<nat (iterations t p i)]) = queryPart t p i @ lit ''|''
   \<and> fragment ii = lit ''site:*.*.'' @ toString (int ii) @ lit ''.* |''
   \<and> queryPart (lit ''test'') \<lparr>vectorCount = 10, density = 257, pageOffset = 0\<rparr> 9
       = lit ''site:*.*.0.* ''
   \<and> (\<exists>urls. buildVectors (lit ''test'') \<lparr>vectorCount = 10, density = 257, pageOffset = 0\<rparr>
          = Inr urls \<and> length urls = 10
        \<and> urls ! 9 = lit ''https://www.google.com/search?q=(test)%20(site%3A*.*.0.*%20)&start=0'')"
proof -
  let ?p = "\<lparr>vectorCount = 10, density = 257, pageOffset = 0\<rparr>"
  let ?c = "concat (map fragment [0..<nat (iterations t p i)])"
  have a: "queryPart t p i = butlast ?c" by (rule queryPart_butlast)
  have "0 < nat (iterations t p i)" using iterations_positive [of t p i] by simp
  from clauses_end [OF this] obtain f where f: "?c = f @ lit ''|''" by blast
  then have b: "?c = queryPart t p i @ lit ''|''" by (simp add: a lit_def)
  have c: "fragment ii = lit ''site:*.*.'' @ toString (int ii) @ lit ''.* |''"
    by (simp add: fragment_def)
  have it: "iterations (lit ''test'') ?p 9 = 1"
    by (simp add: iterations_def decayFactor_def wordCount_test)
  have d: "queryPart (lit ''test'') ?p 9 = lit ''site:*.*.0.* ''"
    unfolding queryPart_butlast it
    by (simp add: fragment_def toString_def natToString_digit lit_def)
  obtain urls where u: "buildVectors (lit ''test'') ?p = Inr urls"
    using buildVectors_wellFormed [OF wellFormed_test] by blast
  from buildVectors_result(1) [OF u] have l: "length urls = 10" by simp
  then have "searchUrl (lit ''test'') ?p (int 9) = Inr (urls ! 9)"
    using buildVectors_result(2) [OF u, of 9] by simp
  moreover have "searchUrl (lit ''test'') ?p 9
      = Inr (lit ''https://www.google.com/search?q=(test)%20(site%3A*.*.0.*%20)&start=0'')"
    unfolding searchUrl_def d
    by (simp add: finalQuery_def lit_def isUnescaped_def isHighSurrogate_def isLowSurrogate_def
        escapeCodePoint_def utf8_def percent_def toString_def natToString_digit)
  ultimately have "urls ! 9
      = lit ''https://www.google.com/search?q=(test)%20(site%3A*.*.0.*%20)&start=0''"
    by simp
  with u l have "\<exists>urls. buildVectors (lit ''test'') ?p = Inr urls \<and> length urls = 10
        \<and> urls ! 9 = lit ''https://www.google.com/search?q=(test)%20(site%3A*.*.0.*%20)&start=0''"
    by blast
  with a b c d show ?thesis by blast
qed

text \<open>
  C4. Every URL of the generated list is \<open>https://www.google.com/search?q=\<close>, then the
  result of \<open>encodeURIComponent\<close> on the final query \<open>(term) (clauseString)\<close> of its
  vector, then \<open>&start=\<close> and the decimal numeral of \<open>pageOffset * 10\<close>. The encoded
  query holds unreserved code units and percent escapes only.
\<close>

theorem generated_url_form:
  assumes "buildVectors t p = Inr urls" and "k < length urls"
  shows "\<exists>q. encodeURIComponent (lit ''('' @ t @ lit '') ('' @ queryPart t p (int k) @ lit '')'')
               = Inr q
             \<and> (\<forall>x\<in>set q. isUnescaped x \<or> x = 0x25)
             \<and> urls ! k = lit ''https://www.google.com/search?q='' @ q @ lit ''&start=''
                 @ toString (pageOffset p * 10)"
proof -
  from buildVectors_result(2) [OF assms] have u: "searchUrl t p (int k) = Inr (urls ! k)" .
  show ?thesis
  proof (cases "encodeURIComponent (finalQuery t (queryPart t p (int k)))")
    case (Inl e)
    with u show ?thesis by (simp add: searchUrl_def)
  next
    case (Inr q)
    with u have "urls ! k = lit ''https://www.google.com/search?q='' @ q @ lit ''&start=''
        @ toString (pageOffset p * 10)"
      by (simp add: searchUrl_def)
    moreover have "\<forall>x\<in>set q. isUnescaped x \<or> x = 0x25"
      using encodeURIComponent_alphabet [OF Inr] by blast
    ultimately show ?thesis using Inr by (simp add: finalQuery_def)
  qed
qed

theorem generated_url_form_witness:
  "\<exists>urls. buildVectors (lit ''test'') \<lparr>vectorCount = 10, density = 257, pageOffset = 3\<rparr>
       = Inr urls \<and> 9 < length urls
     \<and> (\<exists>q. encodeURIComponent (lit ''('' @ lit ''test'' @ lit '') (''
               @ queryPart (lit ''test'') \<lparr>vectorCount = 10, density = 257, pageOffset = 3\<rparr> 9
               @ lit '')'') = Inr q
          \<and> urls ! 9 = lit ''https://www.google.com/search?q='' @ q @ lit ''&start=30'')"
proof -
  let ?p = "\<lparr>vectorCount = 10, density = 257, pageOffset = 3\<rparr>"
  obtain urls where u: "buildVectors (lit ''test'') ?p = Inr urls"
    using buildVectors_wellFormed [OF wellFormed_test] by blast
  from buildVectors_result(1) [OF u] have l: "9 < length urls" by simp
  have "toString (pageOffset ?p * 10) = lit ''30''"
    by (simp add: toString_def) (subst natToString.simps, simp add: natToString_digit lit_def)
  moreover have "lit ''&start='' @ lit ''30'' = lit ''&start=30''" by (simp add: lit_def)
  ultimately show ?thesis using generated_url_form [OF u l] u l by auto
qed

text \<open>
  C5, as amended. The truncation \<open>slice(0, -1)\<close> never fails: it returns the string
  without its last code unit, and the empty string for the empty string. In the variant
  without the floor a loop bound of 0 or less leaves the clause string empty, before and
  after the truncation. With the floor of v2.5.0 the iteration count is at least 1 for
  all parameters, so there the clause string is not empty before the truncation.
\<close>

theorem truncation_never_fails:
  "slice_str s 0 (- 1) = butlast s
   \<and> (n \<le> 0 \<longrightarrow> queryPart_loop 0 n [] = [] \<and> slice_str (queryPart_loop 0 n []) 0 (- 1) = [])
   \<and> 1 \<le> iterations t p i \<and> queryPart_loop 0 (iterations t p i) [] \<noteq> []"
proof -
  have "0 < nat (iterations t p i)" using iterations_positive [of t p i] by simp
  from clauses_end [OF this] obtain f
    where "concat (map fragment [0..<nat (iterations t p i)]) = f @ lit ''|''" by blast
  then have "concat (map fragment [0..<nat (iterations t p i)]) \<noteq> []"
    by (simp only: lit_def) simp
  then have "queryPart_loop 0 (iterations t p i) [] \<noteq> []"
    by (simp add: queryPart_loop_concat)
  then show ?thesis
    by (simp add: slice_drop_last queryPart_loop_nonpositive iterations_positive)
qed

theorem truncation_never_fails_witness:
  "(- 22 :: int) \<le> 0 \<and> queryPart_loop 0 (- 22) [] = []
   \<and> slice_str (queryPart_loop 0 (- 22) []) 0 (- 1) = []"
  using truncation_never_fails [of _ "- 22"] by simp

text \<open>
  The claim C5 as it is written fails in the variant without the floor: for the term
  \<open>test\<close> the loop bound of vector 9 is \<open>257 - 9 * 31 = - 22\<close>, no clause is appended, and
  the truncation gives the empty clause string, from which the URL is built.
\<close>

theorem floorless_truncation_counterexample:
  "257 - 9 * max (32 - wordCount (lit ''test'')) 1 = - 22
   \<and> queryPart_loop 0 (- 22) [] = []
   \<and> slice_str [] 0 (- 1) = []
   \<and> queryPart_v23 (lit ''test'') 9 = []
   \<and> searchUrl_v23 (lit ''test'') 9 = Inr (lit ''https://www.google.com/search?q=(test)%20()'')"
proof -
  have a: "257 - 9 * max (32 - wordCount (lit ''test'')) 1 = - 22"
    by (simp add: wordCount_test)
  have b: "queryPart_loop 0 (- 22) [] = []" by (simp add: queryPart_loop_nonpositive)
  have c: "slice_str [] 0 (- 1) = []" by (simp add: slice_str_def)
  have d: "queryPart_v23 (lit ''test'') 9 = []"
    unfolding queryPart_v23_def a b c ..
  have "searchUrl_v23 (lit ''test'') 9 = Inr (lit ''https://www.google.com/search?q=(test)%20()'')"
    unfolding searchUrl_v23_def d
    by (simp add: finalQuery_def lit_def isUnescaped_def isHighSurrogate_def isLowSurrogate_def
        escapeCodePoint_def utf8_def percent_def)
  with a b c d show ?thesis by blast
qed

section \<open>The callback and the density warning\<close>











subsection \<open>What executeSearch logs and returns\<close>







end
